theory Spec2Isabelle
  imports Main "HOL-Library.Word" "HOL-Library.Multiset" "HOL-Library.Monad_Syntax"
begin

unbundle bit_operations_syntax

section \<open>Bit fields of the pawn hash entry (pawns.h)\<close>

text \<open>
  \<open>get_bits\<close> and \<open>set_bits\<close> are templates over an unsigned type \<open>T\<close>; \<open>pos\<close> and
  \<open>len\<close> are C++ \<open>int\<close>s. pawns.h instantiates them at \<open>uint64_t\<close> (the three words
  of \<open>ColorData::w\<close>) and at \<open>uint8_t\<close> (\<open>Entry::common\<close>).

  A C++ shift is undefined when the count is negative or not smaller than the width of the
  (promoted) left operand. The model makes that a result of its own: \<open>None\<close>.
\<close>

type_synonym u64 = "64 word"
type_synonym u8 = "8 word"

definition shl64 :: "u64 \<Rightarrow> int \<Rightarrow> u64 option" where
  "shl64 x n = (if 0 \<le> n \<and> n < 64 then Some (push_bit (nat n) x) else None)"

definition shr64 :: "u64 \<Rightarrow> int \<Rightarrow> u64 option" where
  "shr64 x n = (if 0 \<le> n \<and> n < 64 then Some (drop_bit (nat n) x) else None)"

text \<open>
  \<^verbatim>\<open>return (w >> pos) & ((T(1) << len) - 1);\<close> at \<open>T = uint64_t\<close>: every operand is a
  64-bit unsigned value, the subtraction wraps.
\<close>

definition get_bits :: "u64 \<Rightarrow> int \<Rightarrow> int \<Rightarrow> u64 option" where
  "get_bits w pos len =
     do { a \<leftarrow> shr64 w pos;
          b \<leftarrow> shl64 1 len;
          Some (a AND (b - 1)) }"

text \<open>
  \<^verbatim>\<open>w ^= ((val << pos) ^ w) & (((T(1) << len) - 1) << pos);\<close> at \<open>T = uint64_t\<close>.
  The function updates \<open>w\<close> in place; the model returns the new word.
\<close>

definition set_bits :: "u64 \<Rightarrow> int \<Rightarrow> int \<Rightarrow> u64 \<Rightarrow> u64 option" where
  "set_bits w pos len val =
     do { a \<leftarrow> shl64 val pos;
          b \<leftarrow> shl64 1 len;
          m \<leftarrow> shl64 (b - 1) pos;
          Some (w XOR ((a XOR w) AND m)) }"

text \<open>
  At \<open>T = uint8_t\<close> the operands of \<open>>>\<close>, \<open><<\<close>, \<open>-\<close>, \<open>&\<close> and \<open>^\<close> are promoted to
  \<open>int\<close> (32 bits, signed), and only the result is converted back to eight bits. The
  promoted values are never negative here; the model computes them as integers and
  gives \<open>None\<close> where a shift count leaves \<open>0..31\<close> or a result leaves the range of
  \<open>int\<close>.
\<close>

definition int_shl :: "int \<Rightarrow> int \<Rightarrow> int option" where
  "int_shl x n =
     (if 0 \<le> n \<and> n < 32 \<and> 0 \<le> x \<and> push_bit (nat n) x < 2 ^ 31
      then Some (push_bit (nat n) x) else None)"

definition int_shr :: "int \<Rightarrow> int \<Rightarrow> int option" where
  "int_shr x n = (if 0 \<le> n \<and> n < 32 \<and> 0 \<le> x then Some (drop_bit (nat n) x) else None)"

definition get_bits_u8 :: "u8 \<Rightarrow> int \<Rightarrow> int \<Rightarrow> u8 option" where
  "get_bits_u8 w pos len =
     do { a \<leftarrow> int_shr (uint w) pos;
          b \<leftarrow> int_shl 1 len;
          Some (word_of_int (a AND (b - 1))) }"

definition set_bits_u8 :: "u8 \<Rightarrow> int \<Rightarrow> int \<Rightarrow> u8 \<Rightarrow> u8 option" where
  "set_bits_u8 w pos len val =
     do { a \<leftarrow> int_shl (uint val) pos;
          b \<leftarrow> int_shl 1 len;
          m \<leftarrow> int_shl (b - 1) pos;
          Some (word_of_int (uint w XOR ((a XOR uint w) AND m))) }"

section \<open>The cluster interface (cluster.h)\<close>

text \<open>\<open>struct MoveInfo\<close>: four \<open>int\<close>s.\<close>

record MoveInfo =
  move :: int
  depth :: int
  score :: int
  rank :: int

subsection \<open>Table entries\<close>

text \<open>
  Modelled from the spec: \<open>tt.h\<close>, which declares \<open>Key\<close>, \<open>TTEntry\<close> and
  \<open>TTEntry::save\<close>, is not among the sources. A table entry carries the payload the data
  model lists: value estimate, bound kind, search depth, best move, static evaluation and
  a freshness marker. \<open>tt_depth\<close> stands for the accessor \<open>depth()\<close> the buffer's
  comparison calls; \<open>BOUND_NONE\<close> is the bound of an entry that holds nothing.
\<close>

datatype Bound = BOUND_NONE | BOUND_UPPER | BOUND_LOWER | BOUND_EXACT

record TTEntry =
  tt_value :: int
  tt_bound :: Bound
  tt_depth :: int
  tt_move :: int
  tt_eval :: int
  tt_generation :: nat

type_synonym Key = u64

type_synonym KeyedTTEntry = "Key \<times> TTEntry"

subsection \<open>The send buffer\<close>

text \<open>
  \<open>TTSendBuffer<N>\<close> is a \<open>std::array<KeyedTTEntry, N>\<close>: a list whose length stays
  \<open>N\<close>. \<open>Compare\<close> orders two entries by depth, greater first.
\<close>

definition TTSendBufferSize :: nat where
  "TTSendBufferSize = 32"

definition compare :: "KeyedTTEntry \<Rightarrow> KeyedTTEntry \<Rightarrow> bool" where
  "compare lhs rhs = (tt_depth (snd lhs) > tt_depth (snd rhs))"

text \<open>
  \<open>std::pop_heap\<close> and \<open>std::push_heap\<close> belong to the C++ standard library. The
  standard fixes their effect on a range that is a heap with respect to \<open>comp\<close> (no
  element is \<open>comp\<close>-smaller than one of its two children, at positions \<open>2i+1\<close> and
  \<open>2i+2\<close>): \<open>pop_heap\<close> swaps the first and the last element and makes all but the
  last a heap again, \<open>push_heap\<close> takes a range whose elements but the last form a heap
  and makes the whole range a heap. Both are modelled by the binary-heap algorithms on
  the array: sinking an element below its children, and raising one above its parents.
\<close>

definition iter_swap :: "'a list \<Rightarrow> nat \<Rightarrow> nat \<Rightarrow> 'a list" where
  "iter_swap xs a b = (let x = xs ! a; y = xs ! b in (xs[a := y])[b := x])"

definition is_heap_until :: "nat \<Rightarrow> KeyedTTEntry list \<Rightarrow> bool" where
  "is_heap_until n xs = (\<forall>i \<in> {1..<n}. \<not> compare (xs ! ((i - 1) div 2)) (xs ! i))"

definition is_heap :: "KeyedTTEntry list \<Rightarrow> bool" where
  "is_heap xs = is_heap_until (length xs) xs"

function sift_down :: "KeyedTTEntry list \<Rightarrow> nat \<Rightarrow> nat \<Rightarrow> KeyedTTEntry list" where
  "sift_down xs n i =
     (let l = 2 * i + 1; r = 2 * i + 2 in
      if l < n then
        (let c = (if r < n \<and> compare (xs ! l) (xs ! r) then r else l) in
         if compare (xs ! i) (xs ! c) then sift_down (iter_swap xs i c) n c else xs)
      else xs)"
  by pat_completeness auto
termination
  by (relation "measure (\<lambda>(xs, n, i). n - i)") auto

function sift_up :: "KeyedTTEntry list \<Rightarrow> nat \<Rightarrow> KeyedTTEntry list" where
  "sift_up xs i =
     (if i = 0 then xs
      else (let p = (i - 1) div 2 in
            if compare (xs ! p) (xs ! i) then sift_up (iter_swap xs p i) p else xs))"
  by pat_completeness auto
termination
  by (relation "measure (\<lambda>(xs, i). i)") auto

text \<open>
  Both demand what the standard demands: a range that is not empty, and the heap they
  start from. Called on anything else they have no defined result: \<open>None\<close>.
\<close>

definition pop_heap :: "KeyedTTEntry list \<Rightarrow> KeyedTTEntry list option" where
  "pop_heap xs =
     (if xs \<noteq> [] \<and> is_heap xs
      then (let n = length xs - 1 in Some (sift_down (iter_swap xs 0 n) n 0))
      else None)"

definition push_heap :: "KeyedTTEntry list \<Rightarrow> KeyedTTEntry list option" where
  "push_heap xs =
     (if xs \<noteq> [] \<and> is_heap_until (length xs - 1) xs
      then Some (sift_up xs (length xs - 1))
      else None)"

text \<open>
  \<open>replace\<close> returns its boolean together with the array's new contents. With
  \<open>N = 0\<close> there is no \<open>front()\<close> to read: the result is \<open>None\<close>.
\<close>

definition replace :: "KeyedTTEntry \<Rightarrow> KeyedTTEntry list \<Rightarrow> (bool \<times> KeyedTTEntry list) option" where
  "replace v buf =
     (case buf of
        [] \<Rightarrow> None
      | front # _ \<Rightarrow>
          if compare v front then
            do { b1 \<leftarrow> pop_heap buf;
                 b3 \<leftarrow> push_heap (b1[length b1 - 1 := v]);
                 Some (True, b3) }
          else Some (False, buf))"

text \<open>A sequence of offers to one buffer, in order.\<close>

fun offers :: "KeyedTTEntry list \<Rightarrow> KeyedTTEntry list \<Rightarrow> KeyedTTEntry list option" where
  "offers [] buf = Some buf"
| "offers (v # vs) buf =
     (case replace v buf of None \<Rightarrow> None | Some (_, buf') \<Rightarrow> offers vs buf')"

text \<open>
  What it means for a buffer to hold the deepest entries of those it has seen: each
  entry it holds was seen, and no entry that was seen and is not held is deeper than one
  that is held. Entries of equal depth are interchangeable.
\<close>

definition holds_deepest :: "KeyedTTEntry list \<Rightarrow> KeyedTTEntry list \<Rightarrow> bool" where
  "holds_deepest buf seen =
     (mset buf \<subseteq># mset seen \<and>
      (\<forall>x \<in># mset seen - mset buf. \<forall>y \<in> set buf. tt_depth (snd x) \<le> tt_depth (snd y)))"

text \<open>
  The header does not say how a buffer starts. An array that is value-initialised
  (\<open>TTSendBuffer<N> b = {}\<close>, or an object of static storage) has key 0 and an entry
  of zeros in every slot; such a buffer is called fresh here.
\<close>

definition value_initialised :: KeyedTTEntry where
  "value_initialised =
     (0, \<lparr>tt_value = 0, tt_bound = BOUND_NONE, tt_depth = 0, tt_move = 0, tt_eval = 0,
          tt_generation = 0\<rparr>)"

definition fresh_buffer :: "nat \<Rightarrow> KeyedTTEntry list" where
  "fresh_buffer n = replicate n value_initialised"

subsection \<open>The single-process interface\<close>

text \<open>
  Without \<open>USE_MPI\<close> every function of the namespace is defined in the header. The
  state they could act on: the table slots a \<open>TTEntry*\<close> points into, the threads' send
  buffers (only a \<open>USE_MPI\<close> build has any) and the search's stop request.
\<close>

record world =
  tt :: "nat \<Rightarrow> TTEntry"
  buffers :: "nat \<Rightarrow> KeyedTTEntry list"
  stop :: bool

definition init :: "world \<Rightarrow> unit \<times> world" where
  "init w = ((), w)"

definition finalize :: "world \<Rightarrow> unit \<times> world" where
  "finalize w = ((), w)"

definition cluster_size :: int where
  "cluster_size = 1"

definition cluster_rank :: int where
  "cluster_rank = 0"

definition is_root :: bool where
  "is_root = True"

text \<open>
  \<open>TTEntry::save\<close> is declared in \<open>tt.h\<close>: what it writes into the entry is the parameter
  \<open>sv\<close>, a function of the six arguments and the entry's old contents. A call
  \<open>tte->save(\<dots>)\<close> updates the slot \<open>tte\<close> points to and nothing else.
\<close>

type_synonym entry_save = "Key \<Rightarrow> int \<Rightarrow> Bound \<Rightarrow> int \<Rightarrow> int \<Rightarrow> int \<Rightarrow> TTEntry \<Rightarrow> TTEntry"

definition TTEntry_save ::
  "entry_save \<Rightarrow> nat \<Rightarrow> Key \<Rightarrow> int \<Rightarrow> Bound \<Rightarrow> int \<Rightarrow> int \<Rightarrow> int \<Rightarrow> world \<Rightarrow> world" where
  "TTEntry_save sv tte k v b d m ev w = w\<lparr>tt := (tt w)(tte := sv k v b d m ev (tt w tte))\<rparr>"

definition save ::
  "entry_save \<Rightarrow> nat \<Rightarrow> nat \<Rightarrow> Key \<Rightarrow> int \<Rightarrow> Bound \<Rightarrow> int \<Rightarrow> int \<Rightarrow> int \<Rightarrow> world \<Rightarrow> world" where
  "save sv thread tte k v b d m ev w = TTEntry_save sv tte k v b d m ev w"

text \<open>\<open>pick_moves(MoveInfo&)\<close> has an empty body: the referenced value stays as it is.\<close>

definition pick_moves :: "MoveInfo \<Rightarrow> MoveInfo" where
  "pick_moves mi = mi"

definition signals_init :: "world \<Rightarrow> unit \<times> world" where
  "signals_init w = ((), w)"

definition signals_poll :: "world \<Rightarrow> unit \<times> world" where
  "signals_poll w = ((), w)"

definition signals_sync :: "world \<Rightarrow> unit \<times> world" where
  "signals_sync w = ((), w)"

subsection \<open>Reading a line\<close>

text \<open>
  \<open>std::getline\<close> and \<open>std::istream\<close> belong to the C++ standard library. A stream is
  the characters its source still delivers, what follows them (the end of the file, or a
  read error), and the three state bits. \<open>std::getline(input, str)\<close>:
  \<^item> on a stream that is not \<open>good()\<close> it sets \<open>failbit\<close> and leaves \<open>str\<close> alone;
  \<^item> otherwise it empties \<open>str\<close> and moves characters into it up to a newline, which
    it consumes and does not store;
  \<^item> when the source ends first it sets \<open>eofbit\<close>, when the source fails \<open>badbit\<close>,
    and \<open>failbit\<close> too if it has extracted no character at all.
  Converting the stream to \<open>bool\<close> gives \<open>!fail()\<close>: neither \<open>failbit\<close> nor
  \<open>badbit\<close> is set. Strings have no maximal size in the model.
\<close>

record istream =
  pending :: string
  source_fails :: bool
  eofbit :: bool
  failbit :: bool
  badbit :: bool

definition newline :: char where
  "newline = CHR 0x0A"

definition good :: "istream \<Rightarrow> bool" where
  "good s = (\<not> eofbit s \<and> \<not> failbit s \<and> \<not> badbit s)"

definition istream_bool :: "istream \<Rightarrow> bool" where
  "istream_bool s = (\<not> (failbit s \<or> badbit s))"

definition std_getline :: "istream \<Rightarrow> string \<Rightarrow> istream \<times> string" where
  "std_getline s str =
     (if \<not> good s then (s\<lparr>failbit := True\<rparr>, str)
      else if newline \<in> set (pending s) then
        (s\<lparr>pending := tl (dropWhile (\<lambda>c. c \<noteq> newline) (pending s))\<rparr>,
         takeWhile (\<lambda>c. c \<noteq> newline) (pending s))
      else if source_fails s then
        (s\<lparr>pending := [], failbit := (pending s = []), badbit := True\<rparr>, pending s)
      else
        (s\<lparr>pending := [], eofbit := True, failbit := (pending s = [])\<rparr>, pending s))"

text \<open>
  \<^verbatim>\<open>return static_cast<bool>(std::getline(input, str));\<close> The model returns the
  boolean, the stream and the string after the call.
\<close>

definition getline :: "istream \<Rightarrow> string \<Rightarrow> bool \<times> istream \<times> string" where
  "getline input str =
     (let (input', str') = std_getline input str in (istream_bool input', input', str'))"

subsection \<open>The distributed interface\<close>

text \<open>
  Modelled from the spec: the \<open>USE_MPI\<close> \<open>getline\<close>, which the header only declares.
  The root rank alone reads from the input; the outcome and the line are then made
  visible to every rank. \<open>strs\<close> are the strings of the other ranks; the result lists,
  rank by rank from the root on, what each call returns and leaves in its string.
\<close>

definition getline_cluster ::
  "istream \<Rightarrow> string \<Rightarrow> string list \<Rightarrow> istream \<times> (bool \<times> string) list" where
  "getline_cluster input str strs =
     (let (state, input', line) = getline input str
      in (input', (state, line) # map (\<lambda>_. (state, line)) strs))"

text \<open>
  Modelled from the spec: the \<open>USE_MPI\<close> \<open>pick_moves\<close>, which the header only declares.
  The root holds one \<open>MoveInfo\<close> from every rank, in the order they arrived, and keeps
  the candidate of greatest depth, among those the one of greatest score, among those the
  one of lowest rank. With nothing gathered the argument stays as it is.
\<close>

definition better :: "MoveInfo \<Rightarrow> MoveInfo \<Rightarrow> bool" where
  "better a b =
     (depth a > depth b \<or>
      (depth a = depth b \<and> (score a > score b \<or> (score a = score b \<and> rank a < rank b))))"

fun pick_best :: "MoveInfo \<Rightarrow> MoveInfo list \<Rightarrow> MoveInfo" where
  "pick_best best [] = best"
| "pick_best best (c # cs) = pick_best (if better c best then c else best) cs"

definition pick_moves_cluster :: "MoveInfo list \<Rightarrow> MoveInfo \<Rightarrow> MoveInfo" where
  "pick_moves_cluster gathered mi = (case gathered of [] \<Rightarrow> mi | c # cs \<Rightarrow> pick_best c cs)"

section \<open>Notions the properties are stated with\<close>

abbreviation entry_depth :: "KeyedTTEntry \<Rightarrow> int" where
  "entry_depth x \<equiv> tt_depth (snd x)"

text \<open>Writing a field and reading the same field back, at either instantiation.\<close>

definition write_then_read :: "u64 \<Rightarrow> int \<Rightarrow> int \<Rightarrow> u64 \<Rightarrow> u64 option" where
  "write_then_read w pos len val = do { w' \<leftarrow> set_bits w pos len val; get_bits w' pos len }"

definition write_then_read_u8 :: "u8 \<Rightarrow> int \<Rightarrow> int \<Rightarrow> u8 \<Rightarrow> u8 option" where
  "write_then_read_u8 w pos len val =
     do { w' \<leftarrow> set_bits_u8 w pos len val; get_bits_u8 w' pos len }"

text \<open>
  The two ways a call of \<open>getline\<close> finds no line to return: the stream has nothing
  left (its end was met by an earlier call, or the source is exhausted), or the read
  fails (the stream is in a failed state already, or the source breaks before the line
  is complete).
\<close>

definition end_of_stream :: "istream \<Rightarrow> bool" where
  "end_of_stream s = (eofbit s \<or> (pending s = [] \<and> \<not> source_fails s))"

definition read_fails :: "istream \<Rightarrow> bool" where
  "read_fails s = (failbit s \<or> badbit s \<or> (newline \<notin> set (pending s) \<and> source_fails s))"

text \<open>Concrete values for the examples: an entry of a given key and depth, a world at rest.\<close>

definition with_depth :: "Key \<Rightarrow> int \<Rightarrow> KeyedTTEntry" where
  "with_depth k d = (k, (snd value_initialised)\<lparr>tt_depth := d\<rparr>)"

definition idle_world :: world where
  "idle_world = \<lparr>tt = (\<lambda>_. snd value_initialised), buffers = (\<lambda>_. []), stop = False\<rparr>"

section \<open>Bit fields: what the two functions compute\<close>

lemma bit_uint_less_exp:
  fixes val :: "'a::len word"
  assumes "uint val < 2 ^ n" "bit val i"
  shows "i < n"
proof -
  have "take_bit n (uint val) = uint val"
    using assms(1) by (simp add: take_bit_int_eq_self)
  moreover have "bit (uint val) i"
    using assms(2) by (simp add: bit_uint_iff bit_imp_le_length)
  ultimately have "bit (take_bit n (uint val)) i" by simp
  then show ?thesis by (simp add: bit_take_bit_iff)
qed

lemma get_bits_eq:
  "0 \<le> pos \<Longrightarrow> pos < 64 \<Longrightarrow> 0 \<le> len \<Longrightarrow> len < 64 \<Longrightarrow>
   get_bits w pos len = Some (take_bit (nat len) (drop_bit (nat pos) w))"
  by (simp add: get_bits_def shl64_def shr64_def take_bit_eq_mask mask_eq_exp_minus_1)

lemma set_bits_eq:
  "0 \<le> pos \<Longrightarrow> pos < 64 \<Longrightarrow> 0 \<le> len \<Longrightarrow> len < 64 \<Longrightarrow>
   set_bits w pos len val =
     Some (w XOR ((push_bit (nat pos) val XOR w) AND push_bit (nat pos) (mask (nat len))))"
  by (simp add: set_bits_def shl64_def mask_eq_exp_minus_1)

lemma bit_set_field:
  "bit ((w::u64) XOR ((push_bit p val XOR w) AND push_bit p (mask l))) i =
   (if p \<le> i \<and> i < p + l \<and> i < 64 then bit val (i - p) else bit w i)"
  by (auto simp add: bit_simps dest: bit_imp_le_length)

lemma bit_get_field:
  "bit (take_bit l (drop_bit p (x::'a::len word))) i = (i < l \<and> bit x (p + i))"
  by (simp add: bit_simps)

lemma set_then_get_bits:
  assumes "0 \<le> pos" "0 \<le> len" "pos < 64" "len < 64" "pos + len \<le> 64" "uint val < 2 ^ nat len"
  shows "\<exists>w'. set_bits w pos len val = Some w' \<and> get_bits w' pos len = Some val"
proof -
  let ?w' = "w XOR ((push_bit (nat pos) val XOR w) AND push_bit (nat pos) (mask (nat len)))"
  have "take_bit (nat len) (drop_bit (nat pos) ?w') = val"
  proof (rule bit_word_eqI)
    fix i assume i: "i < LENGTH(64)"
    have small: "bit val i \<Longrightarrow> i < nat len"
      using assms(6) by (rule bit_uint_less_exp)
    show "bit (take_bit (nat len) (drop_bit (nat pos) ?w')) i = bit val i"
    proof (cases "i < nat len")
      case True
      then have "nat pos + i < nat pos + nat len" "nat pos + i < 64"
        using assms(1-5) by linarith+
      then show ?thesis using True by (simp only: bit_get_field bit_set_field) simp
    next
      case False
      then show ?thesis using small by (simp only: bit_get_field) auto
    qed
  qed
  then show ?thesis using assms by (simp add: get_bits_eq set_bits_eq)
qed

lemma set_bits_outside:
  assumes "set_bits w pos len val = Some w'" "\<not> (pos \<le> int i \<and> int i < pos + len)"
  shows "bit w' i = bit w i"
proof -
  from assms(1) have r: "0 \<le> pos" "0 \<le> len" "pos < 64" "len < 64"
    by (auto simp: set_bits_def shl64_def split: if_splits bind_splits)
  then have "\<not> (nat pos \<le> i \<and> i < nat pos + nat len)"
    using assms(2) by linarith
  moreover have "w' = w XOR ((push_bit (nat pos) val XOR w) AND push_bit (nat pos) (mask (nat len)))"
    using assms(1) r by (simp add: set_bits_eq)
  ultimately show ?thesis by (simp only: bit_set_field) auto
qed

lemma set_bits_defined:
  "set_bits w pos len val = None \<longleftrightarrow> \<not> (0 \<le> pos \<and> pos < 64 \<and> 0 \<le> len \<and> len < 64)"
  by (auto simp: set_bits_def shl64_def split: if_splits bind_splits)

lemma push_bit_int_less:
  fixes x :: int
  assumes "x < 2 ^ l" "p + l \<le> 31"
  shows "push_bit p x < 2 ^ 31"
proof -
  have "push_bit p x < push_bit p (2 ^ l)"
    using assms(1) by (simp add: push_bit_eq_mult)
  also have "\<dots> = 2 ^ (p + l)" by (simp add: push_bit_eq_mult power_add)
  also have "\<dots> \<le> (2::int) ^ 31" using assms(2) by (intro power_increasing) simp_all
  finally show ?thesis .
qed

lemma int_shl_Some:
  "0 \<le> n \<Longrightarrow> 0 \<le> x \<Longrightarrow> x < 2 ^ l \<Longrightarrow> nat n + l \<le> 31 \<Longrightarrow> int_shl x n = Some (push_bit (nat n) x)"
  using push_bit_int_less [of x l "nat n"] by (simp add: int_shl_def)

lemma int_shl_one: "0 \<le> n \<Longrightarrow> n \<le> 30 \<Longrightarrow> int_shl 1 n = Some (2 ^ nat n)"
  using int_shl_Some [of n 1 1] by simp

lemma get_bits_u8_eq:
  assumes "0 \<le> pos" "pos < 32" "0 \<le> len" "len \<le> 30"
  shows "get_bits_u8 w pos len = Some (word_of_int (take_bit (nat len) (drop_bit (nat pos) (uint w))))"
  using assms by (simp add: get_bits_u8_def int_shr_def int_shl_one take_bit_eq_mask mask_eq_exp_minus_1)

lemma set_bits_u8_eq:
  assumes "0 \<le> pos" "0 \<le> len" "len \<le> 30" "pos + len \<le> 31" "uint val < 2 ^ nat (31 - pos)"
  shows "set_bits_u8 w pos len val =
     Some (word_of_int (uint w XOR ((push_bit (nat pos) (uint val) XOR uint w) AND push_bit (nat pos) (mask (nat len)))))"
proof -
  have a: "int_shl (uint val) pos = Some (push_bit (nat pos) (uint val))"
    using assms by (intro int_shl_Some [where l = "nat (31 - pos)"]) simp_all
  have b: "int_shl 1 len = Some (2 ^ nat len)"
    using assms by (intro int_shl_one) simp_all
  have m: "int_shl (2 ^ nat len - 1) pos = Some (push_bit (nat pos) (2 ^ nat len - 1))"
    using assms by (intro int_shl_Some [where l = "nat len"]) simp_all
  show ?thesis by (simp add: set_bits_u8_def a b m mask_eq_exp_minus_1)
qed

lemma bit_set_field_u8:
  "bit (word_of_int (uint w XOR ((push_bit p (uint val) XOR uint w) AND push_bit p (mask l))) :: u8) i =
   (if p \<le> i \<and> i < p + l \<and> i < 8 then bit val (i - p) else bit (w::u8) i)"
  by (auto simp add: bit_simps dest: bit_imp_le_length)

lemma set_then_get_bits_u8:
  assumes "0 \<le> pos" "0 \<le> len" "pos + len \<le> 8" "uint val < 2 ^ nat len"
  shows "\<exists>w'. set_bits_u8 w pos len val = Some w' \<and> get_bits_u8 w' pos len = Some val"
proof -
  let ?w' = "word_of_int (uint w XOR ((push_bit (nat pos) (uint val) XOR uint w) AND push_bit (nat pos) (mask (nat len)))) :: u8"
  have "uint val < 2 ^ nat (31 - pos)"
  proof -
    have "uint val < 2 ^ nat len" by (rule assms(4))
    also have "\<dots> \<le> (2::int) ^ nat (31 - pos)" using assms by (intro power_increasing) simp_all
    finally show ?thesis .
  qed
  then have s: "set_bits_u8 w pos len val = Some ?w'"
    using assms by (intro set_bits_u8_eq) simp_all
  have "(word_of_int (take_bit (nat len) (drop_bit (nat pos) (uint ?w'))) :: u8) = val"
  proof (rule bit_word_eqI)
    fix i assume "i < LENGTH(8)"
    have "bit val i \<Longrightarrow> i < nat len"
      using assms(4) by (rule bit_uint_less_exp)
    then show "bit (word_of_int (take_bit (nat len) (drop_bit (nat pos) (uint ?w'))) :: u8) i = bit val i"
      using assms(1-3) \<open>i < LENGTH(8)\<close>
      by (simp only: bit_word_of_int_iff bit_take_bit_iff bit_drop_bit_eq bit_uint_iff bit_set_field_u8)
        (auto simp add: bit_uint_iff bit_set_field_u8)
  qed
  then have "get_bits_u8 ?w' pos len = Some val"
    using assms by (simp add: get_bits_u8_eq)
  with s show ?thesis by simp
qed

lemma set_bits_u8_outside:
  assumes "set_bits_u8 w pos len val = Some w'" "\<not> (pos \<le> int i \<and> int i < pos + len)"
  shows "bit w' i = bit w i"
proof -
  from assms(1) obtain a b m where
    "int_shl (uint val) pos = Some a" "int_shl 1 len = Some b" "int_shl (b - 1) pos = Some m"
    and w': "w' = word_of_int (uint w XOR ((a XOR uint w) AND m))"
    by (auto simp: set_bits_u8_def split: bind_splits)
  then have "0 \<le> pos" "0 \<le> len" and a: "a = push_bit (nat pos) (uint val)"
    and m: "m = push_bit (nat pos) (mask (nat len))"
    by (auto simp: int_shl_def mask_eq_exp_minus_1 split: if_splits)
  with assms(2) show ?thesis
    unfolding w' a m by (auto simp add: bit_set_field_u8)
qed

lemma set_bits_u8_defined:
  assumes "0 \<le> pos" "0 \<le> len" "pos + len \<le> 8"
  shows "set_bits_u8 w pos len val \<noteq> None"
proof -
  have "uint val < 2 ^ 8" using uint_bounded [of val] by simp
  also have "\<dots> \<le> (2::int) ^ nat (31 - pos)"
    using assms by (intro power_increasing) simp_all
  finally have "uint val < 2 ^ nat (31 - pos)" .
  then show ?thesis using assms by (subst set_bits_u8_eq) simp_all
qed

section \<open>The heap operations keep the heap\<close>

declare sift_down.simps [simp del] sift_up.simps [simp del]

lemma compare_iff: "compare a b \<longleftrightarrow> entry_depth b < entry_depth a"
  by (simp add: compare_def)

lemma is_heap_until_iff:
  "is_heap_until n xs \<longleftrightarrow> (\<forall>j. 0 < j \<and> j < n \<longrightarrow> entry_depth (xs ! ((j - 1) div 2)) \<le> entry_depth (xs ! j))"
  by (auto simp: is_heap_until_def compare_iff not_less Ball_def)

lemma iter_swap_length [simp]: "length (iter_swap xs a b) = length xs"
  unfolding iter_swap_def Let_def by simp

lemma iter_swap_nth:
  assumes "a < length xs" and "b < length xs"
  shows "iter_swap xs a b ! k = (if k = b then xs ! a else if k = a then xs ! b else xs ! k)"
  using assms unfolding iter_swap_def Let_def by (auto simp add: nth_list_update)

lemma iter_swap_mset [simp]:
  assumes "a < length xs" and "b < length xs"
  shows "mset (iter_swap xs a b) = mset xs"
  using assms mset_swap [of b xs a] unfolding iter_swap_def Let_def by simp

lemma parent_eq_iff: "0 < (j::nat) \<Longrightarrow> (j - 1) div 2 = i \<longleftrightarrow> j = 2 * i + 1 \<or> j = 2 * i + 2"
  by arith

lemma length_sift_down [simp]: "length (sift_down xs n i) = length xs"
  by (induction xs n i rule: sift_down.induct) (subst sift_down.simps, simp add: Let_def)

lemma mset_sift_down: "n \<le> length xs \<Longrightarrow> mset (sift_down xs n i) = mset xs"
  by (induction xs n i rule: sift_down.induct) (subst sift_down.simps, simp add: Let_def)

lemma nth_sift_down_beyond: "n \<le> length xs \<Longrightarrow> n \<le> k \<Longrightarrow> sift_down xs n i ! k = xs ! k"
  by (induction xs n i rule: sift_down.induct) (subst sift_down.simps, simp add: Let_def iter_swap_nth)

lemma length_sift_up [simp]: "length (sift_up xs i) = length xs"
  by (induction xs i rule: sift_up.induct) (subst sift_up.simps, simp add: Let_def)

lemma mset_sift_up: "i < length xs \<Longrightarrow> mset (sift_up xs i) = mset xs"
  by (induction xs i rule: sift_up.induct) (subst sift_up.simps, simp add: Let_def)

lemma sift_down_heap:
  assumes "n \<le> length xs"
    and "\<forall>j. 0 < j \<and> j < n \<and> (j - 1) div 2 \<noteq> i \<longrightarrow> entry_depth (xs ! ((j - 1) div 2)) \<le> entry_depth (xs ! j)"
    and "\<forall>j. 0 < i \<and> 0 < j \<and> j < n \<and> (j - 1) div 2 = i \<longrightarrow> entry_depth (xs ! ((i - 1) div 2)) \<le> entry_depth (xs ! j)"
  shows "is_heap_until n (sift_down xs n i)"
  using assms
proof (induction xs n i rule: sift_down.induct)
  case (1 xs n i)
  let ?l = "2 * i + 1" and ?r = "2 * i + 2"
  note others = "1.prems"(2) [rule_format] and above = "1.prems"(3) [rule_format]
  show ?case
  proof (cases "?l < n")
    case False
    then have "sift_down xs n i = xs"
      by (subst sift_down.simps) (simp add: Let_def)
    moreover have "(j - 1) div 2 \<noteq> i" if "0 < j" "j < n" for j
      using that False by arith
    ultimately show ?thesis
      using others by (simp add: is_heap_until_iff)
  next
    case l: True
    define c where "c = (if ?r < n \<and> compare (xs ! ?l) (xs ! ?r) then ?r else ?l)"
    have c_child: "c = ?l \<or> c = ?r" and c_lt: "c < n"
      and c_le_l: "entry_depth (xs ! c) \<le> entry_depth (xs ! ?l)"
      and c_le_r: "?r < n \<Longrightarrow> entry_depth (xs ! c) \<le> entry_depth (xs ! ?r)"
      using l by (auto simp: c_def compare_iff)
    have i_lt: "i < length xs" and c_len: "c < length xs"
      using l c_lt "1.prems"(1) by simp_all
    have c_le_child: "entry_depth (xs ! c) \<le> entry_depth (xs ! j)" if "0 < j" "j < n" "(j - 1) div 2 = i" for j
    proof -
      from that(1,3) have "j = ?l \<or> j = ?r" by arith
      then show ?thesis using c_le_l c_le_r that(2) by auto
    qed
    have unfold: "sift_down xs n i =
        (if compare (xs ! i) (xs ! c) then sift_down (iter_swap xs i c) n c else xs)"
      using l unfolding c_def by (subst sift_down.simps) (simp only: Let_def if_True)
    show ?thesis
    proof (cases "compare (xs ! i) (xs ! c)")
      case False
      then have "sift_down xs n i = xs"
        by (simp add: unfold)
      moreover have "entry_depth (xs ! ((j - 1) div 2)) \<le> entry_depth (xs ! j)" if "0 < j" "j < n" for j
      proof (cases "(j - 1) div 2 = i")
        case True
        then show ?thesis
          using c_le_child [OF that True] False by (simp add: compare_iff)
      next
        case False
        then show ?thesis using others that by simp
      qed
      ultimately show ?thesis by (simp add: is_heap_until_iff)
    next
      case True
      then have lt: "entry_depth (xs ! c) < entry_depth (xs ! i)" by (simp add: compare_iff)
      have step: "sift_down xs n i = sift_down (iter_swap xs i c) n c"
        using True by (simp add: unfold)
      have ic: "i \<noteq> c" "(c - 1) div 2 = i" "0 < c" using c_child by auto
      let ?ys = "iter_swap xs i c"
      have ys: "?ys ! k = (if k = c then xs ! i else if k = i then xs ! c else xs ! k)" for k
        using i_lt c_len by (rule iter_swap_nth)
      have A: "entry_depth (?ys ! ((j - 1) div 2)) \<le> entry_depth (?ys ! j)"
        if j: "0 < j" "j < n" "(j - 1) div 2 \<noteq> c" for j
      proof (cases "(j - 1) div 2 = i")
        case True
        then have "j \<noteq> i" using j(1) by auto
        then show ?thesis
          using c_le_child [OF j(1,2) True] lt True by (simp add: ys)
      next
        case pj: False
        show ?thesis
        proof (cases "j = i")
          case True
          then have "entry_depth (xs ! ((i - 1) div 2)) \<le> entry_depth (xs ! c)"
            using above [of c] j(1) c_lt ic by simp
          moreover have "(i - 1) div 2 \<noteq> i" "(i - 1) div 2 \<noteq> c"
            using True j(1) ic by auto
          ultimately show ?thesis using True ic(1) by (simp add: ys)
        next
          case False
          moreover have "j \<noteq> c" using pj ic by auto
          ultimately show ?thesis
            using others [of j] j pj by (simp add: ys)
        qed
      qed
      have B: "entry_depth (?ys ! ((c - 1) div 2)) \<le> entry_depth (?ys ! j)"
        if j: "0 < c" "0 < j" "j < n" "(j - 1) div 2 = c" for j
      proof -
        have "j \<noteq> i" "j \<noteq> c" using j ic by auto
        moreover have "entry_depth (xs ! c) \<le> entry_depth (xs ! j)"
          using others [of j] j ic by simp
        ultimately show ?thesis using ic by (simp add: ys)
      qed
      have "is_heap_until n (sift_down ?ys n c)"
        using "1.IH" [OF refl refl l c_def True] "1.prems"(1) A B by simp
      then show ?thesis by (simp add: step)
    qed
  qed
qed

lemma sift_up_heap:
  assumes "i < n" "n \<le> length xs"
    and "\<forall>j. 0 < j \<and> j < n \<and> j \<noteq> i \<longrightarrow> entry_depth (xs ! ((j - 1) div 2)) \<le> entry_depth (xs ! j)"
    and "\<forall>j. 0 < i \<and> 0 < j \<and> j < n \<and> (j - 1) div 2 = i \<longrightarrow> entry_depth (xs ! ((i - 1) div 2)) \<le> entry_depth (xs ! j)"
  shows "is_heap_until n (sift_up xs i)"
  using assms
proof (induction xs i rule: sift_up.induct)
  case (1 xs i)
  note others = "1.prems"(3) [rule_format] and below = "1.prems"(4) [rule_format]
  show ?case
  proof (cases "i = 0")
    case True
    then have "sift_up xs i = xs" by (subst sift_up.simps) simp
    then show ?thesis using others True by (simp add: is_heap_until_iff)
  next
    case pos: False
    define p where "p = (i - 1) div 2"
    have p_lt: "p < i" unfolding p_def using pos by arith
    have unfold: "sift_up xs i = (if compare (xs ! p) (xs ! i) then sift_up (iter_swap xs p i) p else xs)"
      using pos unfolding p_def by (subst sift_up.simps) (simp only: Let_def if_False)
    show ?thesis
    proof (cases "compare (xs ! p) (xs ! i)")
      case False
      then have "entry_depth (xs ! ((i - 1) div 2)) \<le> entry_depth (xs ! i)"
        by (simp add: compare_iff p_def)
      then have "entry_depth (xs ! ((j - 1) div 2)) \<le> entry_depth (xs ! j)" if "0 < j" "j < n" for j
        using others [of j] that by (cases "j = i") simp_all
      then show ?thesis using False by (simp add: unfold is_heap_until_iff)
    next
      case True
      then have lt: "entry_depth (xs ! i) < entry_depth (xs ! p)" by (simp add: compare_iff)
      let ?ys = "iter_swap xs p i"
      have len: "p < length xs" "i < length xs" using p_lt "1.prems"(1,2) by simp_all
      have ys: "?ys ! k = (if k = i then xs ! p else if k = p then xs ! i else xs ! k)" for k
        using len by (rule iter_swap_nth)
      have A: "entry_depth (?ys ! ((j - 1) div 2)) \<le> entry_depth (?ys ! j)" if j: "0 < j" "j < n" "j \<noteq> p" for j
      proof (cases "j = i")
        case True
        have "entry_depth (?ys ! p) \<le> entry_depth (?ys ! i)"
          using lt p_lt by (simp add: ys)
        then show ?thesis unfolding True p_def .
      next
        case ji: False
        have o: "entry_depth (xs ! ((j - 1) div 2)) \<le> entry_depth (xs ! j)" using others [of j] j ji by simp
        show ?thesis
        proof (cases "(j - 1) div 2 = i")
          case True
          have "entry_depth (xs ! p) \<le> entry_depth (xs ! j)"
            using below [of j] j True pos by (simp add: p_def)
          then have "entry_depth (?ys ! i) \<le> entry_depth (?ys ! j)"
            using ji j(3) p_lt by (simp add: ys)
          then show ?thesis unfolding True .
        next
          case False
          then show ?thesis using o lt j ji by (auto simp add: ys)
        qed
      qed
      have B: "entry_depth (?ys ! ((p - 1) div 2)) \<le> entry_depth (?ys ! j)"
        if j: "0 < p" "0 < j" "j < n" "(j - 1) div 2 = p" for j
      proof -
        have pp: "(p - 1) div 2 \<noteq> p" "(p - 1) div 2 \<noteq> i" using j(1) p_lt by arith+
        have "j \<noteq> p" using j by arith
        have 1: "entry_depth (xs ! ((p - 1) div 2)) \<le> entry_depth (xs ! p)"
          using others [of p] j(1) p_lt "1.prems"(1) by simp
        show ?thesis
        proof (cases "j = i")
          case True
          then show ?thesis using 1 pp \<open>j \<noteq> p\<close> by (simp add: ys)
        next
          case False
          then have "entry_depth (xs ! p) \<le> entry_depth (xs ! j)" using others [of j] j by simp
          then show ?thesis using 1 pp False \<open>j \<noteq> p\<close> by (simp add: ys)
        qed
      qed
      have "is_heap_until n (sift_up ?ys p)"
        using "1.IH" [OF pos p_def True] p_lt "1.prems"(1,2) A B by simp
      then show ?thesis using True by (simp add: unfold)
    qed
  qed
qed

lemma pop_heap_defined:
  "xs \<noteq> [] \<Longrightarrow> is_heap xs \<Longrightarrow> \<exists>ys. pop_heap xs = Some ys"
  by (simp add: pop_heap_def Let_def)

lemma pop_heap_Some:
  assumes "pop_heap xs = Some ys"
  shows "length ys = length xs" and "mset ys = mset xs"
    and "ys ! (length xs - 1) = xs ! 0" and "is_heap_until (length xs - 1) ys"
proof -
  define m where "m = length xs - 1"
  from assms have ne: "xs \<noteq> []" and heap: "is_heap xs"
    and ys_eq: "ys = sift_down (iter_swap xs 0 m) m 0"
    by (auto simp: pop_heap_def Let_def m_def split: if_splits)
  have m: "m < length xs" using ne by (simp add: m_def)
  show "length ys = length xs" by (simp add: ys_eq)
  show "mset ys = mset xs" using m ne by (simp add: ys_eq mset_sift_down)
  have ys: "iter_swap xs 0 m ! k = (if k = m then xs ! 0 else if k = 0 then xs ! m else xs ! k)" for k
    by (rule iter_swap_nth) (use m ne in simp_all)
  have "ys ! m = iter_swap xs 0 m ! m"
    using m by (simp add: ys_eq nth_sift_down_beyond)
  then have "ys ! m = xs ! 0" by (simp add: ys)
  then show "ys ! (length xs - 1) = xs ! 0" unfolding m_def .
  have h: "entry_depth (xs ! ((j - 1) div 2)) \<le> entry_depth (xs ! j)" if "0 < j" "j < length xs" for j
    using heap that by (simp add: is_heap_def is_heap_until_iff)
  have "entry_depth (iter_swap xs 0 m ! ((j - 1) div 2)) \<le> entry_depth (iter_swap xs 0 m ! j)"
    if "0 < j" "j < m" "(j - 1) div 2 \<noteq> 0" for j
  proof -
    have "(j - 1) div 2 \<noteq> m" using that by arith
    then show ?thesis using that h [of j] m by (simp add: ys)
  qed
  then have "is_heap_until m (sift_down (iter_swap xs 0 m) m 0)"
    using m by (intro sift_down_heap) simp_all
  then show "is_heap_until (length xs - 1) ys" by (simp add: ys_eq m_def)
qed

lemma push_heap_defined:
  "xs \<noteq> [] \<Longrightarrow> is_heap_until (length xs - 1) xs \<Longrightarrow> \<exists>ys. push_heap xs = Some ys"
  by (simp add: push_heap_def)

lemma push_heap_Some:
  assumes "push_heap xs = Some ys"
  shows "length ys = length xs" and "mset ys = mset xs" and "is_heap ys"
proof -
  let ?n = "length xs - 1"
  from assms have ne: "xs \<noteq> []" and pre: "is_heap_until ?n xs"
    and ys_eq: "ys = sift_up xs ?n"
    by (auto simp: push_heap_def split: if_splits)
  show "length ys = length xs" by (simp add: ys_eq)
  show "mset ys = mset xs" using ne by (simp add: ys_eq mset_sift_up)
  have h: "entry_depth (xs ! ((j - 1) div 2)) \<le> entry_depth (xs ! j)" if "0 < j" "j < ?n" for j
    using pre that by (simp add: is_heap_until_iff)
  have "is_heap_until (length xs) (sift_up xs ?n)"
  proof (rule sift_up_heap)
    show "?n < length xs" using ne by simp
    show "\<forall>j. 0 < j \<and> j < length xs \<and> j \<noteq> ?n \<longrightarrow> entry_depth (xs ! ((j - 1) div 2)) \<le> entry_depth (xs ! j)"
      using h by auto
    show "\<forall>j. 0 < ?n \<and> 0 < j \<and> j < length xs \<and> (j - 1) div 2 = ?n \<longrightarrow>
            entry_depth (xs ! ((?n - 1) div 2)) \<le> entry_depth (xs ! j)"
      by clarify arith
  qed simp
  then show "is_heap ys" by (simp add: ys_eq is_heap_def)
qed

lemma heap_front_least:
  assumes "is_heap xs" "j < length xs"
  shows "entry_depth (xs ! 0) \<le> entry_depth (xs ! j)"
  using assms(2)
proof (induction j rule: less_induct)
  case (less j)
  show ?case
  proof (cases "j = 0")
    case True
    then show ?thesis by simp
  next
    case False
    then have p: "(j - 1) div 2 < j" by arith
    have "entry_depth (xs ! ((j - 1) div 2)) \<le> entry_depth (xs ! j)"
      using assms(1) False less.prems by (simp add: is_heap_def is_heap_until_iff)
    moreover have "entry_depth (xs ! 0) \<le> entry_depth (xs ! ((j - 1) div 2))"
      using less.IH [OF p] p less.prems by simp
    ultimately show ?thesis by simp
  qed
qed

lemma is_heap_until_update:
  assumes "is_heap_until n xs" "n \<le> k"
  shows "is_heap_until n (xs[k := v])"
proof -
  have "xs[k := v] ! j = xs ! j" "xs[k := v] ! ((j - 1) div 2) = xs ! ((j - 1) div 2)"
    if "j < n" for j
  proof -
    have "j \<noteq> k" "(j - 1) div 2 \<noteq> k" using that assms(2) by arith+
    then show "xs[k := v] ! j = xs ! j" "xs[k := v] ! ((j - 1) div 2) = xs ! ((j - 1) div 2)"
      by simp_all
  qed
  then show ?thesis using assms(1) unfolding is_heap_until_iff by metis
qed

lemma replace_reject:
  "buf \<noteq> [] \<Longrightarrow> \<not> compare v (buf ! 0) \<Longrightarrow> replace v buf = Some (False, buf)"
  by (cases buf) (simp_all add: replace_def)

lemma replace_front_refused:
  "buf \<noteq> [] \<Longrightarrow> replace (buf ! 0) buf = Some (False, buf)"
  by (rule replace_reject) (simp_all add: compare_def)

lemma replace_admit:
  assumes "buf \<noteq> []" "compare v (buf ! 0)" "is_heap buf"
  shows "\<exists>buf'. replace v buf = Some (True, buf') \<and> length buf' = length buf \<and>
           mset buf' = add_mset v (mset buf - {#buf ! 0#}) \<and> is_heap buf'"
proof -
  obtain b1 where b1: "pop_heap buf = Some b1"
    using pop_heap_defined [OF assms(1,3)] by blast
  note p = pop_heap_Some [OF b1]
  define b2 where "b2 = b1[length b1 - 1 := v]"
  have len2: "length b2 = length buf" by (simp add: b2_def p(1))
  then have ne2: "b2 \<noteq> []" using assms(1) by auto
  have "is_heap_until (length b2 - 1) b2"
    using p(4) by (simp add: b2_def p(1) is_heap_until_update)
  then obtain b3 where b3: "push_heap b2 = Some b3"
    using push_heap_defined [OF ne2] by blast
  note q = push_heap_Some [OF b3]
  have r: "replace v buf = Some (True, b3)"
    using assms(1,2) b1 b3 by (cases buf) (simp_all add: replace_def b2_def)
  have "b1 \<noteq> []" using p(1) assms(1) by auto
  then have "mset b2 = add_mset v (mset b1 - {#b1 ! (length b1 - 1)#})"
    by (simp add: b2_def mset_update)
  then have "mset b2 = add_mset v (mset buf - {#buf ! 0#})"
    using p(2,3) by (simp add: p(1))
  then have "mset b3 = add_mset v (mset buf - {#buf ! 0#})"
    using q(2) by simp
  with r q(1,3) len2 show ?thesis by simp
qed

lemma replace_Some:
  assumes "replace v buf = Some (a, buf')"
  shows "buf \<noteq> []" and "a = compare v (buf ! 0)" and "length buf' = length buf"
    and "\<not> a \<Longrightarrow> buf' = buf"
proof -
  from assms show ne: "buf \<noteq> []" by (auto simp: replace_def)
  then obtain front rest where buf: "buf = front # rest" by (cases buf) auto
  show "a = compare v (buf ! 0)"
    using assms by (auto simp: replace_def buf split: if_splits bind_splits)
  show "length buf' = length buf"
  proof (cases "compare v front")
    case True
    then obtain b1 where b1: "pop_heap buf = Some b1"
      and b3: "push_heap (b1[length b1 - 1 := v]) = Some buf'"
      using assms by (auto simp: replace_def buf split: bind_splits)
    show ?thesis using pop_heap_Some(1) [OF b1] push_heap_Some(1) [OF b3] by simp
  next
    case False
    then show ?thesis using assms by (simp add: replace_def buf)
  qed
  show "buf' = buf" if "\<not> a"
    using assms that by (auto simp: replace_def buf split: if_splits bind_splits)
qed

lemma heap_front_Min:
  assumes "is_heap buf" "buf \<noteq> []"
  shows "Min ((tt_depth \<circ> snd) ` set buf) = entry_depth (buf ! 0)"
proof (rule Min_eqI)
  show "finite ((tt_depth \<circ> snd) ` set buf)" by simp
  show "entry_depth (buf ! 0) \<in> (tt_depth \<circ> snd) ` set buf"
    using assms(2) by (auto intro!: image_eqI [where x = "buf ! 0"])
  fix d assume "d \<in> (tt_depth \<circ> snd) ` set buf"
  then obtain j where "j < length buf" "d = entry_depth (buf ! j)"
    by (auto simp: in_set_conv_nth)
  then show "entry_depth (buf ! 0) \<le> d"
    using heap_front_least [OF assms(1)] by simp
qed

lemma diff_add_outside:
  fixes A B :: "'a multiset"
  assumes "B \<subseteq># A"
  shows "add_mset v A - B = add_mset v (A - B)"
  using assms by (simp add: multiset_eq_iff) (metis Suc_diff_le mset_subset_eq_count)

lemma diff_add_evicted:
  fixes A B :: "'a multiset"
  assumes "B \<subseteq># A" "f \<in># B"
  shows "add_mset v A - add_mset v (B - {#f#}) = add_mset f (A - B)"
  by (metis add_diff_cancel_right add_mset_add_single assms(1,2)
    insert_DiffM2 mset_subset_eq_multiset_union_diff_commute)

lemma replace_holds_deepest:
  assumes heap: "is_heap buf" and ne: "buf \<noteq> []" and top: "holds_deepest buf seen"
    and r: "replace v buf = Some (a, buf')"
  shows "holds_deepest buf' (seen @ [v])"
proof -
  have sub: "mset buf \<subseteq># mset seen"
    and out: "\<And>x y. x \<in># mset seen - mset buf \<Longrightarrow> y \<in> set buf \<Longrightarrow> entry_depth x \<le> entry_depth y"
    using top by (auto simp: holds_deepest_def)
  have least: "entry_depth (buf ! 0) \<le> entry_depth y" if "y \<in> set buf" for y
    using that heap_front_least [OF heap] by (auto simp: in_set_conv_nth)
  have front: "buf ! 0 \<in># mset buf" using ne by simp
  show ?thesis
  proof (cases "compare v (buf ! 0)")
    case False
    then have "buf' = buf" using r ne by (simp add: replace_reject)
    moreover have "mset (seen @ [v]) - mset buf = add_mset v (mset seen - mset buf)"
      using sub by (simp add: diff_add_outside)
    moreover have "entry_depth v \<le> entry_depth y" if "y \<in> set buf" for y
      using least [OF that] False by (simp add: compare_iff)
    ultimately show ?thesis
      using sub out by (auto simp: holds_deepest_def intro: subset_mset.trans)
  next
    case True
    then obtain b where b: "replace v buf = Some (True, b)"
      and mb: "mset b = add_mset v (mset buf - {#buf ! 0#})"
      using replace_admit [OF ne True heap] by blast
    then have [simp]: "buf' = b" using r by simp
    have lt: "entry_depth (buf ! 0) < entry_depth v" using True by (simp add: compare_iff)
    have s1: "mset b \<subseteq># mset (seen @ [v])"
      using sub by (simp add: mb) (meson diff_subset_eq_self subset_mset.trans)
    have s2: "add_mset v (mset seen) - mset b = add_mset (buf ! 0) (mset seen - mset buf)"
      using sub front by (simp add: mb diff_add_evicted)
    have in_b: "y = v \<or> y \<in> set buf" if "y \<in> set b" for y
    proof -
      from that have "y \<in># mset b" by simp
      then show ?thesis unfolding mb by (auto dest: in_diffD)
    qed
    show ?thesis
      unfolding holds_deepest_def
    proof (intro conjI ballI)
      show "mset buf' \<subseteq># mset (seen @ [v])" using s1 by simp
    next
      fix x y assume x: "x \<in># mset (seen @ [v]) - mset buf'" and y: "y \<in> set buf'"
      from x have "x = buf ! 0 \<or> x \<in># mset seen - mset buf" by (simp add: s2)
      then have "entry_depth x \<le> entry_depth (buf ! 0)"
        using out [of x "buf ! 0"] ne by auto
      moreover have "entry_depth (buf ! 0) \<le> entry_depth y"
        using in_b [of y] y lt least [of y] by auto
      ultimately show "entry_depth x \<le> entry_depth y" by simp
    qed
  qed
qed

lemma offers_holds_deepest:
  assumes "is_heap buf" "buf \<noteq> []" "holds_deepest buf seen"
  shows "\<exists>buf'. offers vs buf = Some buf' \<and> is_heap buf' \<and> length buf' = length buf \<and>
           holds_deepest buf' (seen @ vs)"
  using assms
proof (induction vs arbitrary: buf seen)
  case Nil
  then show ?case by simp
next
  case (Cons v vs)
  obtain a b where r: "replace v buf = Some (a, b)" and len: "length b = length buf"
    and heap: "is_heap b"
  proof (cases "compare v (buf ! 0)")
    case True
    then show ?thesis
      using replace_admit [OF Cons.prems(2) True Cons.prems(1)] that by blast
  next
    case False
    then show ?thesis
      using replace_reject [OF Cons.prems(2) False] Cons.prems(1) that by blast
  qed
  have ne: "b \<noteq> []" using len Cons.prems(2) by auto
  have "holds_deepest b (seen @ [v])"
    using Cons.prems r by (rule replace_holds_deepest)
  from Cons.IH [OF heap ne this] r len show ?case by simp
qed

lemma holds_deepest_refl: "holds_deepest buf buf"
  by (simp add: holds_deepest_def)
section \<open>Selection among candidates, and reading a line\<close>

lemma better_irrefl: "\<not> better a a"
  by (simp add: better_def)

lemma better_trans: "better a b \<Longrightarrow> better b c \<Longrightarrow> better a c"
  by (auto simp: better_def)

lemma better_total: "rank a \<noteq> rank b \<Longrightarrow> better a b \<or> better b a"
  by (auto simp: better_def)

lemma pick_best_mem: "pick_best b cs \<in> set (b # cs)"
  by (induction cs arbitrary: b) (auto split: if_splits)

lemma pick_best_unbeaten:
  assumes "\<forall>x \<in> S. \<not> better x b"
  shows "\<forall>x \<in> S \<union> set cs. \<not> better x (pick_best b cs)"
  using assms
proof (induction cs arbitrary: b S)
  case Nil
  then show ?case by simp
next
  case (Cons c cs)
  let ?b = "if better c b then c else b"
  have "\<forall>x \<in> insert c S. \<not> better x ?b"
    using Cons.prems by (auto intro: better_trans simp: better_irrefl)
  from Cons.IH [OF this] show ?case by simp
qed

lemma pick_best_greatest:
  "\<forall>x \<in> set (b # cs). \<not> better x (pick_best b cs)"
  using pick_best_unbeaten [of "{b}" b cs] by (simp add: better_irrefl)

lemma pick_moves_cluster_mem:
  "gathered \<noteq> [] \<Longrightarrow> pick_moves_cluster gathered mi \<in> set gathered"
  using pick_best_mem by (cases gathered) (simp_all add: pick_moves_cluster_def)

lemma pick_moves_cluster_greatest:
  "\<forall>x \<in> set gathered. \<not> better x (pick_moves_cluster gathered mi)"
  using pick_best_greatest by (cases gathered) (simp_all add: pick_moves_cluster_def)

lemma pick_moves_order_independent:
  assumes "mset xs = mset ys" "distinct (map rank xs)"
  shows "pick_moves_cluster xs mi = pick_moves_cluster ys mi"
proof (cases "xs = []")
  case True
  then show ?thesis using assms(1) by simp
next
  case False
  have set_eq: "set xs = set ys" using assms(1) by (rule mset_eq_setD)
  then have ne: "ys \<noteq> []" using False by auto
  let ?a = "pick_moves_cluster xs mi" and ?b = "pick_moves_cluster ys mi"
  have a: "?a \<in> set xs" and b: "?b \<in> set xs"
    using False ne set_eq pick_moves_cluster_mem by auto
  have inj: "inj_on rank (set xs)" using assms(2) by (simp add: distinct_map)
  show ?thesis
  proof (rule ccontr)
    assume "?a \<noteq> ?b"
    then have "rank ?a \<noteq> rank ?b" using inj a b by (auto dest: inj_onD)
    then have "better ?a ?b \<or> better ?b ?a" by (rule better_total)
    moreover have "\<not> better ?b ?a" using pick_moves_cluster_greatest [of xs mi] b by blast
    moreover have "\<not> better ?a ?b" using pick_moves_cluster_greatest [of ys mi] a set_eq by blast
    ultimately show False by blast
  qed
qed

lemma getline_result:
  "getline input str = (ok, input', out) \<Longrightarrow>
     ok = (good input \<and> (newline \<in> set (pending input) \<or> (pending input \<noteq> [] \<and> \<not> source_fails input)))"
  by (auto simp: getline_def std_getline_def istream_bool_def good_def split: if_splits)

lemma takeWhile_no_newline:
  "newline \<notin> set xs \<Longrightarrow> takeWhile (\<lambda>c. c \<noteq> newline) xs = xs"
  by (simp add: takeWhile_eq_all_conv) metis

lemma getline_line:
  "getline input str = (True, input', out) \<Longrightarrow> out = takeWhile (\<lambda>c. c \<noteq> newline) (pending input)"
  by (auto simp: getline_def std_getline_def istream_bool_def good_def takeWhile_no_newline split: if_splits)

lemma is_heap_fresh_buffer: "is_heap (fresh_buffer n)"
proof -
  have "(j - 1) div 2 < n" if "j < n" for j
    using that by arith
  then show ?thesis
    unfolding is_heap_def is_heap_until_iff fresh_buffer_def by simp
qed

lemma replace_total:
  assumes "buf \<noteq> []" "is_heap buf"
  shows "\<exists>a buf'. replace v buf = Some (a, buf') \<and> a = compare v (buf ! 0) \<and>
           (a \<longrightarrow> mset buf' = add_mset v (mset buf - {#buf ! 0#}))"
proof (cases "compare v (buf ! 0)")
  case True
  then show ?thesis using replace_admit [OF assms(1) True assms(2)] by auto
next
  case False
  then show ?thesis using replace_reject [OF assms(1) False] by auto
qed

section \<open>The claims\<close>

subsection \<open>The send buffer\<close>

text \<open>
  C1, as the code has it. A \<open>TTSendBuffer\<close> is an array: it holds \<open>N\<close> entries from its
  construction on and has no state below capacity. From any contents that form a heap,
  after any sequence of offers the buffer still holds \<open>N\<close> entries, still a heap, and they
  are the deepest among its initial contents and the entries offered. A single offer is
  admitted exactly when its depth exceeds the least depth in the buffer, and then one
  entry of that least depth (the front) gives way to it.
\<close>

theorem send_buffer_holds_deepest:
  assumes "is_heap buf" "buf \<noteq> []"
  shows "(\<exists>buf'. offers vs buf = Some buf' \<and> length buf' = length buf \<and> is_heap buf' \<and>
            holds_deepest buf' (buf @ vs)) \<and>
         (\<exists>a buf'. replace v buf = Some (a, buf') \<and>
            (a \<longleftrightarrow> Min ((tt_depth \<circ> snd) ` set buf) < entry_depth v) \<and>
            (a \<longrightarrow> (\<exists>m \<in> set buf. entry_depth m = Min ((tt_depth \<circ> snd) ` set buf) \<and>
                        mset buf' = add_mset v (mset buf - {#m#}))))"
proof
  show "\<exists>buf'. offers vs buf = Some buf' \<and> length buf' = length buf \<and> is_heap buf' \<and>
          holds_deepest buf' (buf @ vs)"
    using offers_holds_deepest [OF assms holds_deepest_refl, of vs] by blast
next
  have least: "Min ((tt_depth \<circ> snd) ` set buf) = entry_depth (buf ! 0)"
    using assms by (rule heap_front_Min)
  have front: "buf ! 0 \<in> set buf" using assms(2) by simp
  from replace_total [OF assms(2,1), of v] obtain a buf' where
    "replace v buf = Some (a, buf')" "a = compare v (buf ! 0)"
    "a \<longrightarrow> mset buf' = add_mset v (mset buf - {#buf ! 0#})"
    by blast
  then show "\<exists>a buf'. replace v buf = Some (a, buf') \<and>
      (a \<longleftrightarrow> Min ((tt_depth \<circ> snd) ` set buf) < entry_depth v) \<and>
      (a \<longrightarrow> (\<exists>m \<in> set buf. entry_depth m = Min ((tt_depth \<circ> snd) ` set buf) \<and>
                  mset buf' = add_mset v (mset buf - {#m#})))"
    using least front by (auto simp: compare_iff)
qed

text \<open>
  The scenario of the spec at capacity 2: offers of depth 5, 12 and 9 to a fresh buffer
  leave the entries of depth 9 and 12.
\<close>

theorem send_buffer_holds_deepest_witness:
  "is_heap (fresh_buffer 2) \<and> fresh_buffer 2 \<noteq> [] \<and>
   offers [with_depth 1 5, with_depth 2 12, with_depth 3 9] (fresh_buffer 2)
     = Some [with_depth 3 9, with_depth 2 12] \<and>
   holds_deepest [with_depth 3 9, with_depth 2 12]
     (fresh_buffer 2 @ [with_depth 1 5, with_depth 2 12, with_depth 3 9]) \<and>
   replace (with_depth 4 7) (fresh_buffer 2) = Some (True, [value_initialised, with_depth 4 7])"
proof -
  have h: "is_heap (fresh_buffer 2)" by (rule is_heap_fresh_buffer)
  have n: "fresh_buffer 2 \<noteq> []" by (simp add: fresh_buffer_def)
  have o: "offers [with_depth 1 5, with_depth 2 12, with_depth 3 9] (fresh_buffer 2)
             = Some [with_depth 3 9, with_depth 2 12]"
    by code_simp
  have r: "replace (with_depth 4 7) (fresh_buffer 2) = Some (True, [value_initialised, with_depth 4 7])"
    by code_simp
  from send_buffer_holds_deepest [OF h n, of "[with_depth 1 5, with_depth 2 12, with_depth 3 9]"]
  show ?thesis using h n o r by auto
qed

text \<open>
  C1 as stated fails: the first offer to a freshly constructed buffer of 32 slots is
  refused when its depth is 0, although nothing has been offered before, and the buffer
  does not hold the one entry it was offered.
\<close>

theorem first_offer_refused_counterexample:
  "replace (with_depth 1 0) (fresh_buffer TTSendBufferSize)
     = Some (False, fresh_buffer TTSendBufferSize) \<and>
   with_depth 1 0 \<notin> set (fresh_buffer TTSendBufferSize)"
  by code_simp

text \<open>
  C10. On a buffer of \<open>N \<ge> 1\<close> entries, whatever \<open>replace\<close> returns, the buffer has
  \<open>N\<close> entries afterwards, and when the result is \<open>false\<close> the buffer is the one it
  was. On a heap \<open>replace\<close> does return, and the result is \<open>false\<close> exactly when the
  offered depth does not exceed the least depth in the buffer.
\<close>

theorem replace_refusal_atomic:
  assumes "buf \<noteq> []"
  shows "(\<forall>a buf'. replace v buf = Some (a, buf') \<longrightarrow>
            length buf' = length buf \<and> (\<not> a \<longrightarrow> buf' = buf)) \<and>
         (is_heap buf \<longrightarrow>
            (\<exists>a buf'. replace v buf = Some (a, buf') \<and>
               (\<not> a \<longleftrightarrow> entry_depth v \<le> Min ((tt_depth \<circ> snd) ` set buf))))"
proof (intro conjI allI impI)
  fix a buf' assume r: "replace v buf = Some (a, buf')"
  show "length buf' = length buf" using r by (rule replace_Some)
  show "buf' = buf" if "\<not> a" using r that by (rule replace_Some)
next
  assume heap: "is_heap buf"
  from replace_total [OF assms heap, of v] obtain a buf' where
    r: "replace v buf = Some (a, buf')" "a = compare v (buf ! 0)"
    by blast
  have "\<not> a \<longleftrightarrow> entry_depth v \<le> Min ((tt_depth \<circ> snd) ` set buf)"
    using heap_front_Min [OF heap assms] r(2) by (auto simp: compare_iff)
  with r show "\<exists>a buf'. replace v buf = Some (a, buf') \<and>
      (\<not> a \<longleftrightarrow> entry_depth v \<le> Min ((tt_depth \<circ> snd) ` set buf))"
    by blast
qed

theorem replace_refusal_atomic_witness:
  "[with_depth 1 3, with_depth 2 7] \<noteq> [] \<and> is_heap [with_depth 1 3, with_depth 2 7] \<and>
   replace (with_depth 3 3) [with_depth 1 3, with_depth 2 7]
     = Some (False, [with_depth 1 3, with_depth 2 7]) \<and>
   replace (with_depth 3 4) [with_depth 1 3, with_depth 2 7]
     = Some (True, [with_depth 3 4, with_depth 2 7])"
proof -
  have h: "is_heap [with_depth 1 3, with_depth 2 7]" by code_simp
  have r: "replace (with_depth 3 3) [with_depth 1 3, with_depth 2 7]
             = Some (False, [with_depth 1 3, with_depth 2 7])"
          "replace (with_depth 3 4) [with_depth 1 3, with_depth 2 7]
             = Some (True, [with_depth 3 4, with_depth 2 7])"
    by code_simp+
  from replace_refusal_atomic [of "[with_depth 1 3, with_depth 2 7]" "with_depth 3 3"]
  show ?thesis using h r by simp
qed

subsection \<open>Bit fields\<close>

text \<open>
  C8, as the code has it. At \<open>uint64_t\<close> the field must leave the shifts defined: with
  \<open>0 \<le> pos < 64\<close>, \<open>0 \<le> len < 64\<close>, \<open>pos + len \<le> 64\<close> and \<open>val < 2^len\<close>, reading a
  field after writing it gives back \<open>val\<close>. At \<open>uint8_t\<close>, where the shifts are done on
  \<open>int\<close>, this holds for every field with \<open>pos + len \<le> 8\<close>.
\<close>

theorem get_bits_after_set_bits:
  "(0 \<le> pos \<and> 0 \<le> len \<and> pos < 64 \<and> len < 64 \<and> pos + len \<le> 64 \<and> uint val < 2 ^ nat len
      \<longrightarrow> write_then_read w pos len val = Some val) \<and>
   (0 \<le> pos8 \<and> 0 \<le> len8 \<and> pos8 + len8 \<le> 8 \<and> uint val8 < 2 ^ nat len8
      \<longrightarrow> write_then_read_u8 w8 pos8 len8 val8 = Some val8)"
proof (intro conjI impI)
  assume "0 \<le> pos \<and> 0 \<le> len \<and> pos < 64 \<and> len < 64 \<and> pos + len \<le> 64 \<and> uint val < 2 ^ nat len"
  then obtain w' where "set_bits w pos len val = Some w'" "get_bits w' pos len = Some val"
    using set_then_get_bits [of pos len val w] by blast
  then show "write_then_read w pos len val = Some val"
    by (simp add: write_then_read_def)
next
  assume "0 \<le> pos8 \<and> 0 \<le> len8 \<and> pos8 + len8 \<le> 8 \<and> uint val8 < 2 ^ nat len8"
  then obtain w' where "set_bits_u8 w8 pos8 len8 val8 = Some w'"
    "get_bits_u8 w' pos8 len8 = Some val8"
    using set_then_get_bits_u8 [of pos8 len8 val8 w8] by blast
  then show "write_then_read_u8 w8 pos8 len8 val8 = Some val8"
    by (simp add: write_then_read_u8_def)
qed

text \<open>
  The king square, bits 56 to 62 of \<open>w[0]\<close>, and the open files, bits 4 to 7 of
  \<open>common\<close>.
\<close>

theorem get_bits_after_set_bits_witness:
  "(0::int) \<le> 56 \<and> (0::int) \<le> 7 \<and> (56::int) < 64 \<and> (7::int) < 64 \<and> (56::int) + 7 \<le> 64 \<and>
   uint (60 :: u64) < 2 ^ nat 7 \<and>
   write_then_read 0xFFFFFFFFFFFFFFFF 56 7 60 = Some 60 \<and>
   (0::int) \<le> 4 \<and> (4::int) + 4 \<le> 8 \<and> uint (9 :: u8) < 2 ^ nat 4 \<and>
   write_then_read_u8 0xAB 4 4 9 = Some 9"
  using get_bits_after_set_bits [of 56 7 60 "0xFFFFFFFFFFFFFFFF" 4 4 9 "0xAB"] by simp

text \<open>
  C8 as stated fails at \<open>uint64_t\<close> for a field as wide as the word: \<open>pos = 0\<close>,
  \<open>len = 64\<close> satisfies \<open>pos + len \<le> 64\<close> and \<open>val = 1 < 2^64\<close>, but \<open>T(1) << 64\<close> is
  a shift by the full width and has no defined result.
\<close>

theorem get_bits_full_width_counterexample:
  "(0::int) + 64 \<le> 64 \<and> uint (1 :: u64) < 2 ^ nat 64 \<and>
   write_then_read 0 0 64 1 = None \<and> get_bits 1 0 64 = None"
  by (simp add: write_then_read_def set_bits_def get_bits_def shl64_def shr64_def)

text \<open>
  C9. \<open>set_bits\<close> is defined exactly when its shifts are, and then every bit outside
  \<open>[pos, pos + len)\<close> is the bit of the original word, whatever \<open>val\<close> is; so too at
  \<open>uint8_t\<close>, where every field with \<open>pos + len \<le> 8\<close> is defined.
\<close>

theorem set_bits_frame:
  "(set_bits w pos len val = None \<longleftrightarrow> \<not> (0 \<le> pos \<and> pos < 64 \<and> 0 \<le> len \<and> len < 64)) \<and>
   (\<forall>w' i. set_bits w pos len val = Some w' \<and> \<not> (pos \<le> int i \<and> int i < pos + len)
      \<longrightarrow> bit w' i = bit w i) \<and>
   (0 \<le> pos8 \<and> 0 \<le> len8 \<and> pos8 + len8 \<le> 8 \<longrightarrow> set_bits_u8 w8 pos8 len8 val8 \<noteq> None) \<and>
   (\<forall>w' i. set_bits_u8 w8 pos8 len8 val8 = Some w' \<and> \<not> (pos8 \<le> int i \<and> int i < pos8 + len8)
      \<longrightarrow> bit w' i = bit w8 i)"
  using set_bits_defined [of w pos len val] set_bits_outside [of w pos len val]
    set_bits_u8_defined [of pos8 len8 w8 val8] set_bits_u8_outside [of w8 pos8 len8 val8]
  by blast

theorem set_bits_frame_witness:
  "set_bits 0xFFFF 4 8 0 = Some 0xF00F \<and> \<not> ((4::int) \<le> int 2 \<and> int 2 < 4 + 8) \<and>
   bit (0xF00F :: u64) 2 = bit (0xFFFF :: u64) 2 \<and>
   set_bits_u8 0xFF 4 4 0 = Some 0x0F \<and> \<not> ((4::int) \<le> int 3 \<and> int 3 < 4 + 4) \<and>
   bit (0x0F :: u8) 3 = bit (0xFF :: u8) 3"
proof -
  have a: "set_bits 0xFFFF 4 8 0 = Some 0xF00F"
    by (simp add: set_bits_def shl64_def)
  have b: "set_bits_u8 0xFF 4 4 0 = Some 0x0F"
    by (simp add: set_bits_u8_def int_shl_def)
  from set_bits_frame [of "0xFFFF" 4 8 0 4 4 "0xFF" 0] a b
  have "bit (0xF00F :: u64) 2 = bit (0xFFFF :: u64) 2" "bit (0x0F :: u8) 3 = bit (0xFF :: u8) 3"
    by auto
  with a b show ?thesis by simp
qed

subsection \<open>The single-process interface\<close>

text \<open>
  C3. Without \<open>USE_MPI\<close>, \<open>Cluster::save\<close> is the write \<open>tte->save(k, v, b, d, m, ev)\<close>
  with the same arguments, whatever the thread: the slot \<open>tte\<close> gets what
  \<open>TTEntry::save\<close> makes of it, and the send buffers and the stop request stay as they
  are.
\<close>

theorem save_is_local_write:
  "save sv thread tte k v b d m ev w = TTEntry_save sv tte k v b d m ev w \<and>
   tt (save sv thread tte k v b d m ev w) = (tt w)(tte := sv k v b d m ev (tt w tte)) \<and>
   buffers (save sv thread tte k v b d m ev w) = buffers w \<and>
   stop (save sv thread tte k v b d m ev w) = stop w"
  by (simp add: save_def TTEntry_save_def)

text \<open>
  C4. Without \<open>USE_MPI\<close> the three queries are constants: size 1, rank 0, root. They
  take no state, so nothing that runs can change them; the rank lies in \<open>[0, size)\<close> and
  being root is having rank 0.
\<close>

theorem single_process_topology:
  "cluster_size = 1 \<and> cluster_rank = 0 \<and> is_root = True \<and>
   0 \<le> cluster_rank \<and> cluster_rank < cluster_size \<and> is_root = (cluster_rank = 0)"
  by (simp add: cluster_size_def cluster_rank_def is_root_def)

text \<open>
  C6, as the code has it. \<open>signals_poll\<close> is declared \<open>void\<close> in both builds. The
  single-process function does nothing: it returns no value and leaves the state as it
  is.
\<close>

theorem signals_poll_does_nothing:
  "signals_poll w = ((), w)"
  by (simp add: signals_poll_def)

text \<open>
  C6 as stated fails: what \<open>signals_poll\<close> returns is the same whether a stop has been
  requested or not.
\<close>

theorem signals_poll_no_indication_counterexample:
  "stop (idle_world\<lparr>stop := True\<rparr>) \<and> \<not> stop (idle_world\<lparr>stop := False\<rparr>) \<and>
   fst (signals_poll (idle_world\<lparr>stop := True\<rparr>)) = fst (signals_poll (idle_world\<lparr>stop := False\<rparr>))"
  by (simp add: signals_poll_def)

subsection \<open>Reading a line\<close>

text \<open>
  C5. \<open>getline\<close> returns \<open>false\<close> exactly when the stream is at its end or the read
  fails, the two treated alike; when it returns \<open>true\<close> the string holds the pending
  characters up to the first newline. A last line without a newline is still returned
  with \<open>true\<close>; the call after it finds the end. In the distributed model every rank gets
  the boolean and the line of the root's read.
\<close>

theorem getline_false_at_end_or_failure:
  assumes "getline input str = (ok, input', out)"
  shows "(\<not> ok \<longleftrightarrow> end_of_stream input \<or> read_fails input) \<and>
         (ok \<longrightarrow> out = takeWhile (\<lambda>c. c \<noteq> newline) (pending input)) \<and>
         length (snd (getline_cluster input str strs)) = 1 + length strs \<and>
         (\<forall>r \<in> set (snd (getline_cluster input str strs)). r = (ok, out))"
proof (intro conjI)
  show "\<not> ok \<longleftrightarrow> end_of_stream input \<or> read_fails input"
    using getline_result [OF assms]
    by (auto simp: end_of_stream_def read_fails_def good_def)
  show "ok \<longrightarrow> out = takeWhile (\<lambda>c. c \<noteq> newline) (pending input)"
    using assms getline_line [of input str input' out] by auto
  show "length (snd (getline_cluster input str strs)) = 1 + length strs"
    by (simp add: getline_cluster_def split: prod.split)
  show "\<forall>r \<in> set (snd (getline_cluster input str strs)). r = (ok, out)"
    using assms by (auto simp: getline_cluster_def)
qed

text \<open>
  The stream of the spec's test, \<open>go depth 10\<close> and then the end: the first call gives
  the line, the second finds the end, and so on each of three ranks.
\<close>

theorem getline_false_at_end_or_failure_witness:
  "getline \<lparr>pending = ''go depth 10'', source_fails = False, eofbit = False, failbit = False,
      badbit = False\<rparr> ''''
     = (True, \<lparr>pending = [], source_fails = False, eofbit = True, failbit = False,
          badbit = False\<rparr>, ''go depth 10'') \<and>
   snd (getline_cluster \<lparr>pending = ''go depth 10'', source_fails = False, eofbit = False,
      failbit = False, badbit = False\<rparr> '''' ['''', ''''])
     = [(True, ''go depth 10''), (True, ''go depth 10''), (True, ''go depth 10'')] \<and>
   getline \<lparr>pending = [], source_fails = False, eofbit = True, failbit = False,
      badbit = False\<rparr> ''go depth 10''
     = (False, \<lparr>pending = [], source_fails = False, eofbit = True, failbit = True,
          badbit = False\<rparr>, ''go depth 10'') \<and>
   end_of_stream \<lparr>pending = [], source_fails = False, eofbit = True, failbit = False,
      badbit = False\<rparr>"
proof -
  let ?s0 = "\<lparr>pending = ''go depth 10'', source_fails = False, eofbit = False, failbit = False,
      badbit = False\<rparr>"
  let ?s1 = "\<lparr>pending = [], source_fails = False, eofbit = True, failbit = False,
      badbit = False\<rparr>"
  let ?s2 = "\<lparr>pending = [], source_fails = False, eofbit = True, failbit = True,
      badbit = False\<rparr>"
  have g1: "getline ?s0 '''' = (True, ?s1, ''go depth 10'')"
    by (simp add: getline_def std_getline_def good_def istream_bool_def newline_def)
  have g2: "getline ?s1 ''go depth 10'' = (False, ?s2, ''go depth 10'')"
    by (simp add: getline_def std_getline_def good_def istream_bool_def)
  have c: "snd (getline_cluster ?s0 '''' ['''', ''''])
     = [(True, ''go depth 10''), (True, ''go depth 10''), (True, ''go depth 10'')]"
    by (simp add: getline_cluster_def g1)
  from getline_false_at_end_or_failure [OF g2]
  have "end_of_stream ?s1 \<or> read_fails ?s1" by simp
  then have "end_of_stream ?s1" by (simp add: end_of_stream_def)
  with g1 g2 c show ?thesis by simp
qed

subsection \<open>Picking the move\<close>

text \<open>
  C2. The selection depends on the candidates gathered and not on the order they came
  in: two gatherings with the same candidates, one from each rank, select the same
  \<open>MoveInfo\<close>. It is one of the candidates and goes before every other by depth, then
  score, then lower rank. The single-process \<open>pick_moves\<close>, which leaves its argument
  as it is, is the selection among that one candidate.
\<close>

theorem pick_moves_deterministic:
  assumes "mset xs = mset ys" "distinct (map rank xs)"
  shows "pick_moves_cluster xs mi = pick_moves_cluster ys mi \<and>
         (xs \<noteq> [] \<longrightarrow> pick_moves_cluster xs mi \<in> set xs) \<and>
         (\<forall>x \<in> set xs. x = pick_moves_cluster xs mi \<or> better (pick_moves_cluster xs mi) x) \<and>
         pick_moves mi = pick_moves_cluster [mi] mi"
proof (intro conjI)
  show "pick_moves_cluster xs mi = pick_moves_cluster ys mi"
    using assms by (rule pick_moves_order_independent)
  show "xs \<noteq> [] \<longrightarrow> pick_moves_cluster xs mi \<in> set xs"
    using pick_moves_cluster_mem by blast
  show "\<forall>x \<in> set xs. x = pick_moves_cluster xs mi \<or> better (pick_moves_cluster xs mi) x"
  proof
    fix x assume x: "x \<in> set xs"
    then have ne: "xs \<noteq> []" by auto
    let ?s = "pick_moves_cluster xs mi"
    have s: "?s \<in> set xs" using ne by (rule pick_moves_cluster_mem)
    have inj: "inj_on rank (set xs)" using assms(2) by (simp add: distinct_map)
    show "x = ?s \<or> better ?s x"
    proof (cases "x = ?s")
      case False
      then have "rank x \<noteq> rank ?s" using inj x s by (auto dest: inj_onD)
      then have "better x ?s \<or> better ?s x" by (rule better_total)
      moreover have "\<not> better x ?s" using pick_moves_cluster_greatest x by blast
      ultimately show ?thesis by blast
    qed simp
  qed
  show "pick_moves mi = pick_moves_cluster [mi] mi"
    by (simp add: pick_moves_def pick_moves_cluster_def)
qed

text \<open>
  The tie of the spec: two ranks report depth 20 and score 35; in either order of
  arrival the candidate of rank 0 is selected.
\<close>

theorem pick_moves_deterministic_witness:
  "mset [\<lparr>move = 7, depth = 20, score = 35, rank = 1\<rparr>, \<lparr>move = 3, depth = 20, score = 35, rank = 0\<rparr>]
     = mset [\<lparr>move = 3, depth = 20, score = 35, rank = 0\<rparr>, \<lparr>move = 7, depth = 20, score = 35, rank = 1\<rparr>] \<and>
   distinct (map rank [\<lparr>move = 7, depth = 20, score = 35, rank = 1\<rparr>,
     \<lparr>move = 3, depth = 20, score = 35, rank = 0\<rparr>]) \<and>
   pick_moves_cluster [\<lparr>move = 7, depth = 20, score = 35, rank = 1\<rparr>,
     \<lparr>move = 3, depth = 20, score = 35, rank = 0\<rparr>] \<lparr>move = 0, depth = 0, score = 0, rank = 0\<rparr>
     = \<lparr>move = 3, depth = 20, score = 35, rank = 0\<rparr> \<and>
   pick_moves_cluster [\<lparr>move = 3, depth = 20, score = 35, rank = 0\<rparr>,
     \<lparr>move = 7, depth = 20, score = 35, rank = 1\<rparr>] \<lparr>move = 0, depth = 0, score = 0, rank = 0\<rparr>
     = \<lparr>move = 3, depth = 20, score = 35, rank = 0\<rparr>"
proof -
  let ?a = "\<lparr>move = 7, depth = 20, score = 35, rank = 1\<rparr>"
  let ?b = "\<lparr>move = 3, depth = 20, score = 35, rank = 0\<rparr>"
  let ?z = "\<lparr>move = 0, depth = 0, score = 0, rank = 0\<rparr>"
  have m: "mset [?a, ?b] = mset [?b, ?a]" by simp
  have d: "distinct (map rank [?a, ?b])" by simp
  have p: "pick_moves_cluster [?a, ?b] ?z = ?b"
    by (simp add: pick_moves_cluster_def better_def)
  from pick_moves_deterministic [OF m d, of ?z]
  have "pick_moves_cluster [?a, ?b] ?z = pick_moves_cluster [?b, ?a] ?z" by blast
  with m d p show ?thesis by simp
qed

end
